theory Spec2Isabelle
  imports Main
begin

section \<open>Python primitives used by \<^verbatim>\<open>peng_ui/elements/text_field.py\<close>\<close>

text \<open>
  Python integers are unbounded, so every index is an \<open>int\<close>. Indexing a list or a string
  with an index outside \<open>[-n, n)\<close> raises; slicing never raises and clamps its bounds.
  A font is represented by the only thing the text field asks of it in the modelled code,
  the pixel width \<^verbatim>\<open>font.size(text)[0]\<close>, a function from strings to integers.
\<close>

datatype py_error = IndexError | ZeroDivisionError | ValueError

type_synonym font = "string \<Rightarrow> int"

definition slice_bound :: "int \<Rightarrow> nat \<Rightarrow> nat" where
  \<comment> \<open>the position a slice bound \<open>i\<close> denotes in a sequence of length \<open>n\<close>\<close>
  "slice_bound i n = (if i < 0 then nat (max 0 (int n + i)) else min (nat i) n)"

definition slice_to :: "'a list \<Rightarrow> int \<Rightarrow> 'a list" where
  \<comment> \<open>\<^verbatim>\<open>xs[:i]\<close>\<close>
  "slice_to xs i = take (slice_bound i (length xs)) xs"

definition slice_from :: "'a list \<Rightarrow> int \<Rightarrow> 'a list" where
  \<comment> \<open>\<^verbatim>\<open>xs[i:]\<close>\<close>
  "slice_from xs i = drop (slice_bound i (length xs)) xs"

definition index_pos :: "int \<Rightarrow> nat \<Rightarrow> nat option" where
  \<comment> \<open>the position an index \<open>i\<close> denotes in a sequence of length \<open>n\<close>: indices below zero
      count from the end, and an index outside \<open>[-n, n)\<close> denotes none\<close>
  "index_pos i n =
     (if 0 \<le> i \<and> i < int n then Some (nat i)
      else if - int n \<le> i \<and> i < 0 then Some (nat (int n + i))
      else None)"

definition py_index :: "'a list \<Rightarrow> int \<Rightarrow> py_error + 'a" where
  \<comment> \<open>\<^verbatim>\<open>xs[i]\<close>\<close>
  "py_index xs i =
     (case index_pos i (length xs) of None \<Rightarrow> Inl IndexError | Some k \<Rightarrow> Inr (xs ! k))"

definition py_setitem :: "'a list \<Rightarrow> int \<Rightarrow> 'a \<Rightarrow> py_error + 'a list" where
  \<comment> \<open>\<^verbatim>\<open>xs[i] = v\<close>\<close>
  "py_setitem xs i v =
     (case index_pos i (length xs) of None \<Rightarrow> Inl IndexError | Some k \<Rightarrow> Inr (xs[k := v]))"

definition py_insert :: "'a list \<Rightarrow> int \<Rightarrow> 'a \<Rightarrow> 'a list" where
  \<comment> \<open>\<^verbatim>\<open>xs.insert(i, v)\<close>\<close>
  "py_insert xs i v = (let k = slice_bound i (length xs) in take k xs @ v # drop k xs)"

fun str_split :: "string \<Rightarrow> string list" where
  \<comment> \<open>\<^verbatim>\<open>s.split(' ')\<close>: one piece more than there are spaces\<close>
  "str_split [] = [[]]"
| "str_split (c # cs) =
     (if c = CHR '' '' then [] # str_split cs
      else (c # hd (str_split cs)) # tl (str_split cs))"

fun str_join :: "string list \<Rightarrow> string" where
  \<comment> \<open>\<^verbatim>\<open>' '.join(xs)\<close>\<close>
  "str_join [] = []"
| "str_join [x] = x"
| "str_join (x # y # ys) = x @ CHR '' '' # str_join (y # ys)"

definition str_find :: "string \<Rightarrow> int \<Rightarrow> int" where
  \<comment> \<open>\<^verbatim>\<open>s.find(' ', start)\<close>\<close>
  "str_find s start =
     (let k = slice_bound start (length s); rest = drop k s
      in if CHR '' '' \<in> set rest
         then int k + int (length (takeWhile (\<lambda>c. c \<noteq> CHR '' '') rest))
         else -1)"

definition str_rfind :: "string \<Rightarrow> int \<Rightarrow> int" where
  \<comment> \<open>\<^verbatim>\<open>s.rfind(' ', 0, end)\<close>\<close>
  "str_rfind s e =
     (let pre = take (slice_bound e (length s)) s
      in if CHR '' '' \<in> set pre
         then int (length pre) - 1 - int (length (takeWhile (\<lambda>c. c \<noteq> CHR '' '') (rev pre)))
         else -1)"

definition trunc_div :: "int \<Rightarrow> int \<Rightarrow> int" where
  \<comment> \<open>\<^verbatim>\<open>int(a / b)\<close> for \<open>b \<noteq> 0\<close>: the quotient rounded towards zero (exact as long as
      the float quotient is, which holds for pixel sizes)\<close>
  "trunc_div a b = sgn a * sgn b * (\<bar>a\<bar> div \<bar>b\<bar>)"

section \<open>Cursor and Line\<close>

record Cursor =
  line_index :: int
  paragraph_index :: int
  char_index :: int

record Line =
  paragraphs :: "string list"

definition Line_init :: "string \<Rightarrow> Line" where
  \<comment> \<open>\<^verbatim>\<open>Line(text)\<close>\<close>
  "Line_init t = \<lparr>paragraphs = [t]\<rparr>"

definition get_line_char_index :: "Line \<Rightarrow> int \<Rightarrow> int \<Rightarrow> int" where
  "get_line_char_index l pi ci =
     sum_list (map (\<lambda>p. int (length p) + 1) (slice_to (paragraphs l) pi)) + ci"

fun scan_paragraphs :: "int \<Rightarrow> int \<Rightarrow> int \<Rightarrow> string list \<Rightarrow> (int \<times> int) option" where
  \<comment> \<open>the loop of \<^verbatim>\<open>get_paragraph_char_index\<close> from index \<open>i\<close> with \<open>cum_char_sum\<close>;
      \<open>None\<close> when the loop runs to its end\<close>
  "scan_paragraphs lci i cum_char_sum [] = None"
| "scan_paragraphs lci i cum_char_sum (p # ps) =
     (let p_chars = int (length p) + 1
      in if lci < cum_char_sum + p_chars then Some (i, lci - cum_char_sum)
         else scan_paragraphs lci (i + 1) (cum_char_sum + p_chars) ps)"

definition get_paragraph_char_index :: "Line \<Rightarrow> int \<Rightarrow> int \<times> int" where
  "get_paragraph_char_index l lci =
     (case scan_paragraphs lci 0 0 (paragraphs l) of
        Some r \<Rightarrow> r
      | None \<Rightarrow> (int (length (paragraphs l)) - 1, 0))"

fun wrap_loop :: "font \<Rightarrow> int \<Rightarrow> string list \<Rightarrow> string \<Rightarrow> string list \<Rightarrow> string \<times> string list" where
  \<comment> \<open>the \<^verbatim>\<open>for word in words\<close> loop of \<^verbatim>\<open>auto_wrap\<close> on the state
      \<open>(current_line, new_paragraphs)\<close>\<close>
  "wrap_loop font max_width [] current_line new_paragraphs = (current_line, new_paragraphs)"
| "wrap_loop font max_width (word # ws) current_line new_paragraphs =
     (let test_line = current_line @ (if current_line \<noteq> [] then '' '' else []) @ word
      in if font test_line \<le> max_width
         then wrap_loop font max_width ws test_line new_paragraphs
         else if current_line \<noteq> []
         then wrap_loop font max_width ws word (new_paragraphs @ [current_line])
         else wrap_loop font max_width ws [] (new_paragraphs @ [word]))"

definition flush_line :: "string \<times> string list \<Rightarrow> string list" where
  \<comment> \<open>\<^verbatim>\<open>if current_line: new_paragraphs.append(current_line)\<close>\<close>
  "flush_line st = (case st of (current_line, new_paragraphs) \<Rightarrow>
     if current_line \<noteq> [] then new_paragraphs @ [current_line] else new_paragraphs)"

definition auto_wrap :: "font \<Rightarrow> int \<Rightarrow> Line \<Rightarrow> Line" where
  "auto_wrap font max_width l =
     (let words = str_split (str_join (paragraphs l))
      in l\<lparr>paragraphs := flush_line (wrap_loop font max_width words [] [])\<rparr>)"

definition auto_wrap_and_norm_cursor :: "font \<Rightarrow> int \<Rightarrow> Line \<Rightarrow> Cursor \<Rightarrow> Line \<times> Cursor" where
  "auto_wrap_and_norm_cursor font max_width l cursor =
     (let line_char_index = get_line_char_index l (paragraph_index cursor) (char_index cursor);
          l' = auto_wrap font max_width l;
          (new_paragraph_index, new_char_index) = get_paragraph_char_index l' line_char_index
      in (l', \<lparr>line_index = line_index cursor, paragraph_index = new_paragraph_index,
               char_index = new_char_index\<rparr>))"

definition num_paragraphs :: "Line \<Rightarrow> int" where
  "num_paragraphs l = int (length (paragraphs l))"

definition Line_split :: "Line \<Rightarrow> int \<Rightarrow> int \<Rightarrow> py_error + (Line \<times> Line)" where
  "Line_split l pi split_index =
     (let left_paragraphs = slice_to (paragraphs l) pi;
          right_paragraphs = slice_from (paragraphs l) (pi + 1)
      in case py_index (paragraphs l) pi of
           Inl e \<Rightarrow> Inl e
         | Inr middle_paragraph \<Rightarrow>
             (let left_part = slice_to middle_paragraph split_index;
                  right_part = slice_from middle_paragraph split_index
              in Inr (Line_init (concat (left_paragraphs @ [left_part])),
                      Line_init (concat (right_part # right_paragraphs)))))"

section \<open>TextField\<close>

text \<open>
  The state of a \<^verbatim>\<open>TextField\<close> as far as the editing operations read or write it.
  The field \<^verbatim>\<open>self.text\<close> is called \<open>text_lines\<close> here. Colours, focus, hover and the
  selection are only touched by event decoding and drawing and are left out.
\<close>

record TextField =
  text_lines :: "Line list"
  cursor :: Cursor
  scroll_offset :: int
  rect_width :: int
  rect_height :: int
  padding :: int
  line_height :: int

definition get_line :: "TextField \<Rightarrow> int \<Rightarrow> py_error + Line" where
  \<comment> \<open>\<^verbatim>\<open>self.text[line_index]\<close>\<close>
  "get_line tf li = py_index (text_lines tf) li"

definition get_paragraph :: "TextField \<Rightarrow> int \<Rightarrow> int \<Rightarrow> py_error + string" where
  \<comment> \<open>\<^verbatim>\<open>self.text[line_index].paragraphs[paragraph_index]\<close>, for a cursor or a pair\<close>
  "get_paragraph tf li pi =
     (case get_line tf li of Inl e \<Rightarrow> Inl e | Inr l \<Rightarrow> py_index (paragraphs l) pi)"

fun wrap_lines :: "font \<Rightarrow> int \<Rightarrow> int \<Rightarrow> Line list \<Rightarrow> Cursor \<Rightarrow> Line list \<times> Cursor" where
  \<comment> \<open>the loop of \<^verbatim>\<open>_wrap_text\<close> from \<open>line_index\<close> on\<close>
  "wrap_lines font max_width li [] c = ([], c)"
| "wrap_lines font max_width li (l # ls) c =
     (if li = line_index c
      then (case auto_wrap_and_norm_cursor font max_width l c of (l', c') \<Rightarrow>
              (case wrap_lines font max_width (li + 1) ls c' of (ls', c'') \<Rightarrow> (l' # ls', c'')))
      else (case wrap_lines font max_width (li + 1) ls c of (ls', c') \<Rightarrow>
              (auto_wrap font max_width l # ls', c')))"

definition wrap_text :: "font \<Rightarrow> TextField \<Rightarrow> TextField" where
  "wrap_text font tf =
     (let max_width = rect_width tf - 2 * padding tf
      in case wrap_lines font max_width 0 (text_lines tf) (cursor tf) of
           (ls, c) \<Rightarrow> tf\<lparr>text_lines := ls, cursor := c\<rparr>)"

definition get_view_line_pos :: "TextField \<Rightarrow> Cursor \<Rightarrow> int" where
  "get_view_line_pos tf c =
     sum_list (map num_paragraphs (slice_to (text_lines tf) (line_index c))) + paragraph_index c"

definition get_num_paragraphs :: "TextField \<Rightarrow> int" where
  "get_num_paragraphs tf = sum_list (map num_paragraphs (text_lines tf))"

definition visible_lines :: "TextField \<Rightarrow> py_error + int" where
  \<comment> \<open>\<^verbatim>\<open>max(1, int(visible_height / self.line_height))\<close>\<close>
  "visible_lines tf =
     (let visible_height = rect_height tf - 2 * padding tf
      in if line_height tf = 0 then Inl ZeroDivisionError
         else Inr (max 1 (trunc_div visible_height (line_height tf))))"

definition clamp_scroll :: "TextField \<Rightarrow> py_error + TextField" where
  "clamp_scroll tf =
     (case visible_lines tf of
        Inl e \<Rightarrow> Inl e
      | Inr vl \<Rightarrow>
          (let max_scroll = max 0 (get_num_paragraphs tf - vl)
           in Inr (tf\<lparr>scroll_offset := max 0 (min (scroll_offset tf) max_scroll)\<rparr>)))"

definition update_scroll :: "TextField \<Rightarrow> py_error + TextField" where
  "update_scroll tf =
     (case visible_lines tf of
        Inl e \<Rightarrow> Inl e
      | Inr vl \<Rightarrow>
          (let cursor_line = get_view_line_pos tf (cursor tf);
               tf1 = (if cursor_line \<ge> scroll_offset tf + vl
                      then tf\<lparr>scroll_offset := cursor_line - vl + 1\<rparr> else tf);
               tf2 = (if cursor_line < scroll_offset tf1
                      then tf1\<lparr>scroll_offset := cursor_line\<rparr> else tf1)
           in clamp_scroll tf2))"

definition create_newline :: "TextField \<Rightarrow> py_error + TextField" where
  "create_newline tf =
     (let li = line_index (cursor tf)
      in case py_index (text_lines tf) li of
           Inl e \<Rightarrow> Inl e
         | Inr orig_line \<Rightarrow>
             (case Line_split orig_line (paragraph_index (cursor tf)) (char_index (cursor tf)) of
                Inl e \<Rightarrow> Inl e
              | Inr (left_line, right_line) \<Rightarrow>
                  (case py_setitem (text_lines tf) li left_line of
                     Inl e \<Rightarrow> Inl e
                   | Inr ls \<Rightarrow> Inr (tf\<lparr>text_lines := py_insert ls (li + 1) right_line\<rparr>))))"

definition next_char_index :: "string \<Rightarrow> int \<Rightarrow> int \<Rightarrow> bool \<Rightarrow> py_error + int" where
  "next_char_index paragraph ci direction jump_words =
     (if \<not> jump_words then Inr (ci + direction)
      else if direction > 0 then
        (if ci = int (length paragraph) then Inr (int (length paragraph) + 1)
         else let new_index = str_find paragraph (ci + 1)
              in if new_index = -1 then Inr (int (length paragraph)) else Inr new_index)
      else if direction < 0 then
        (if ci = 0 then Inr (-1)
         else let new_index = str_rfind paragraph ci
              in if new_index = -1 then Inr 0 else Inr new_index)
      else Inl ValueError)"

definition wrap_destination :: "TextField \<Rightarrow> Cursor \<Rightarrow> int \<Rightarrow> Line \<Rightarrow> (int \<times> int) option" where
  \<comment> \<open>the block of \<^verbatim>\<open>_move_cursor\<close> that steps the paragraph and, when that leaves the
      current line, the line; \<open>None\<close> is its early \<^verbatim>\<open>return\<close>. Where
      \<^verbatim>\<open>self.text[new_line_index]\<close> is read, the index has just been checked to lie in
      \<open>[0, len(self.text))\<close>, so the read cannot raise\<close>
  "wrap_destination tf c direction current_line =
     (let new_paragraph_index = paragraph_index c + direction
      in if new_paragraph_index < 0 \<or> new_paragraph_index \<ge> num_paragraphs current_line
         then (let new_line_index = line_index c + direction
               in if new_line_index < 0 \<or> new_line_index \<ge> int (length (text_lines tf))
                  then None
                  else (let npi1 = (if new_paragraph_index < 0
                                    then num_paragraphs (text_lines tf ! nat new_line_index) - 1
                                    else new_paragraph_index);
                            npi2 = (if npi1 \<ge> num_paragraphs current_line then 0 else npi1)
                        in Some (new_line_index, npi2)))
         else Some (line_index c, new_paragraph_index))"

definition move_cursor :: "TextField \<Rightarrow> Cursor \<Rightarrow> int \<Rightarrow> bool \<Rightarrow> py_error + Cursor" where
  \<comment> \<open>\<^verbatim>\<open>_move_cursor\<close>; the result is the cursor object after the call\<close>
  "move_cursor tf c direction jump_words =
     (if \<not> jump_words then
        (case get_paragraph tf (line_index c) (paragraph_index c) of
           Inl e \<Rightarrow> Inl e
         | Inr paragraph \<Rightarrow>
        (case next_char_index paragraph (char_index c) direction jump_words of
           Inl e \<Rightarrow> Inl e
         | Inr new_char_index \<Rightarrow>
             if new_char_index < 0 \<or> new_char_index > int (length paragraph) then
               (let wrap_back = new_char_index < 0;
                    wrap_forward = new_char_index > int (length paragraph)
                in case get_line tf (line_index c) of
                     Inl e \<Rightarrow> Inl e
                   | Inr current_line \<Rightarrow>
                  (case wrap_destination tf c direction current_line of
                     None \<Rightarrow> Inr c
                   | Some (new_line_index, new_paragraph_index) \<Rightarrow>
                       (let nci = (if wrap_forward then 0 else new_char_index)
                        in if wrap_back
                           then (case get_paragraph tf new_line_index new_paragraph_index of
                                   Inl e \<Rightarrow> Inl e
                                 | Inr p \<Rightarrow> Inr \<lparr>line_index = new_line_index,
                                                 paragraph_index = new_paragraph_index,
                                                 char_index = int (length p)\<rparr>)
                           else Inr \<lparr>line_index = new_line_index,
                                     paragraph_index = new_paragraph_index,
                                     char_index = nci\<rparr>)))
             else Inr \<lparr>line_index = line_index c, paragraph_index = paragraph_index c,
                       char_index = new_char_index\<rparr>))
      else Inr \<lparr>line_index = line_index c, paragraph_index = paragraph_index c,
                char_index = char_index c\<rparr>)"

definition move_my_cursor :: "TextField \<Rightarrow> int \<Rightarrow> bool \<Rightarrow> py_error + TextField" where
  "move_my_cursor tf direction jump_words =
     (case move_cursor tf (cursor tf) direction jump_words of
        Inl e \<Rightarrow> Inl e
      | Inr c \<Rightarrow> update_scroll (tf\<lparr>cursor := c\<rparr>))"

definition insert_text :: "font \<Rightarrow> TextField \<Rightarrow> string \<Rightarrow> py_error + TextField" where
  "insert_text font tf char =
     (let c = cursor tf
      in case get_paragraph tf (line_index c) (paragraph_index c) of
           Inl e \<Rightarrow> Inl e
         | Inr paragraph \<Rightarrow>
        (let paragraph' = slice_to paragraph (char_index c) @ char @ slice_from paragraph (char_index c)
         in case py_index (text_lines tf) (line_index c) of
              Inl e \<Rightarrow> Inl e
            | Inr l \<Rightarrow>
           (case py_setitem (paragraphs l) (paragraph_index c) paragraph' of
              Inl e \<Rightarrow> Inl e
            | Inr ps \<Rightarrow>
           (case py_setitem (text_lines tf) (line_index c) (l\<lparr>paragraphs := ps\<rparr>) of
              Inl e \<Rightarrow> Inl e
            | Inr ls \<Rightarrow>
                (let tf1 = wrap_text font (tf\<lparr>text_lines := ls\<rparr>);
                     tf2 = tf1\<lparr>cursor := (cursor tf1)\<lparr>char_index :=
                                              char_index (cursor tf1) + int (length char)\<rparr>\<rparr>
                 in update_scroll tf2)))))"

section \<open>Fixtures for concrete evaluations\<close>

definition char_width :: font where
  \<comment> \<open>a font in which every character is one pixel wide\<close>
  "char_width s = int (length s)"

definition field_of :: "Line list \<Rightarrow> Cursor \<Rightarrow> TextField" where
  \<comment> \<open>a field 13 pixels wide whose padding of 5 leaves room for three characters of
      \<open>char_width\<close>, five rows high, scrolled to the top\<close>
  "field_of ls c = \<lparr>text_lines = ls, cursor = c, scroll_offset = 0, rect_width = 13,
                    rect_height = 110, padding = 5, line_height = 20\<rparr>"

definition ragged_font :: font where
  \<comment> \<open>a font that measures the text \<open>a\<close> followed by a space wider than every longer text\<close>
  "ragged_font s = (if s = ''a '' then 10 else 1)"

section \<open>Predicates used in the proofs about wrapping\<close>

definition settled :: "font \<Rightarrow> int \<Rightarrow> string \<Rightarrow> bool" where
  \<comment> \<open>a paragraph as the wrapper emits it: not empty, starting with a word, and either
      fitting or a single word\<close>
  "settled font mw p =
     (p \<noteq> [] \<and> hd p \<noteq> CHR '' '' \<and> (font p \<le> mw \<or> CHR '' '' \<notin> set p))"

definition blocks :: "font \<Rightarrow> int \<Rightarrow> string \<Rightarrow> string \<Rightarrow> bool" where
  \<comment> \<open>the first word of \<open>q\<close> does not fit behind \<open>p\<close>\<close>
  "blocks font mw p q = (font (p @ CHR '' '' # hd (str_split q)) > mw)"

definition wrapped :: "font \<Rightarrow> int \<Rightarrow> string list \<Rightarrow> bool" where
  "wrapped font mw ps = (list_all (settled font mw) ps \<and> successively (blocks font mw) ps)"

section \<open>Scrolling never fails on a non-zero row height and only writes the offset\<close>

lemma visible_lines_Inr:
  "line_height tf \<noteq> 0 \<Longrightarrow>
   visible_lines tf = Inr (max 1 (trunc_div (rect_height tf - 2 * padding tf) (line_height tf)))"
  by (simp add: visible_lines_def)

lemma visible_lines_scroll [simp]:
  "visible_lines (tf\<lparr>scroll_offset := s\<rparr>) = visible_lines tf"
  by (simp add: visible_lines_def)

lemma clamp_scroll_Inr:
  "visible_lines tf = Inr vl \<Longrightarrow>
   clamp_scroll tf =
     Inr (tf\<lparr>scroll_offset := max 0 (min (scroll_offset tf) (max 0 (get_num_paragraphs tf - vl)))\<rparr>)"
  by (simp add: clamp_scroll_def)

lemma update_scroll_Inr:
  assumes "visible_lines tf = Inr vl"
  shows "\<exists>s. update_scroll tf = Inr (tf\<lparr>scroll_offset := s\<rparr>)"
proof -
  define r where "r = get_view_line_pos tf (cursor tf)"
  define tf1 where
    "tf1 = (if r \<ge> scroll_offset tf + vl then tf\<lparr>scroll_offset := r - vl + 1\<rparr> else tf)"
  define tf2 where "tf2 = (if r < scroll_offset tf1 then tf1\<lparr>scroll_offset := r\<rparr> else tf1)"
  have u: "update_scroll tf = clamp_scroll tf2"
    unfolding update_scroll_def tf2_def tf1_def r_def using assms by (simp add: Let_def)
  obtain s1 where s1: "tf1 = tf\<lparr>scroll_offset := s1\<rparr>"
  proof (cases "r \<ge> scroll_offset tf + vl")
    case True
    then show ?thesis using that[of "r - vl + 1"] by (simp add: tf1_def)
  next
    case False
    then show ?thesis using that[of "scroll_offset tf"] by (simp add: tf1_def)
  qed
  obtain s where s: "tf2 = tf\<lparr>scroll_offset := s\<rparr>"
  proof (cases "r < scroll_offset tf1")
    case True
    then show ?thesis using that[of r] by (simp add: tf2_def s1)
  next
    case False
    then show ?thesis using that[of s1] by (simp add: tf2_def s1)
  qed
  have "visible_lines tf2 = Inr vl" using assms s by simp
  from clamp_scroll_Inr[OF this] show ?thesis unfolding u s by auto
qed

lemma update_scroll_keeps:
  assumes "line_height tf \<noteq> 0"
  shows "\<exists>tf'. update_scroll tf = Inr tf' \<and> cursor tf' = cursor tf
               \<and> text_lines tf' = text_lines tf"
proof -
  from visible_lines_Inr[OF assms] update_scroll_Inr obtain s where
    "update_scroll tf = Inr (tf\<lparr>scroll_offset := s\<rparr>)" by blast
  then show ?thesis by simp
qed

section \<open>Wrapping an empty line\<close>

text \<open>
  Claim C1 says that \<^verbatim>\<open>auto_wrap\<close> never leaves a Line without paragraphs, and that an
  empty line is wrapped to exactly one empty paragraph. The code does otherwise: the only
  word of an empty text is the empty string, it fits whenever the empty string is not wider
  than \<open>max_width\<close>, and the final \<^verbatim>\<open>if current_line:\<close> then appends nothing. The Line
  that \<^verbatim>\<open>Line('')\<close> builds with one empty paragraph has no paragraph after the wrap.
\<close>

theorem auto_wrap_empty_line_no_paragraph:
  "font [] \<le> max_width \<Longrightarrow> paragraphs (auto_wrap font max_width (Line_init [])) = []"
  by (simp add: auto_wrap_def Line_init_def flush_line_def)

theorem auto_wrap_empty_line_no_paragraph_witness:
  "char_width [] \<le> 3 \<and> paragraphs (auto_wrap char_width 3 (Line_init [])) = []"
  using auto_wrap_empty_line_no_paragraph[of char_width 3] by (simp add: char_width_def)

section \<open>Splitting a line\<close>

text \<open>
  Claim C3 says that splitting the Line with paragraphs \<open>hello\<close>, \<open>world\<close> at paragraph 1,
  character 2 gives the raw texts \<open>hello wo\<close> and \<open>rld\<close>. \<^verbatim>\<open>Line.split\<close> joins the
  retained paragraphs with the empty string, not with the space that \<^verbatim>\<open>auto_wrap\<close> and
  the flattened offset put between two paragraphs, so the left text is \<open>hellowo\<close>.
\<close>

theorem Line_split_hello_world:
  "Line_split \<lparr>paragraphs = [''hello'', ''world'']\<rparr> 1 2
     = Inr (\<lparr>paragraphs = [''hellowo'']\<rparr>, \<lparr>paragraphs = [''rld'']\<rparr>)"
  by code_simp

text \<open>
  Claim C4 says that after the manual newline the cursor stands at the start of the right
  Line: line index one more, paragraph 0, character 0. \<^verbatim>\<open>_create_newline\<close> replaces the
  Line by the two halves and never writes the cursor. In the field below the cursor stays
  \<open>(0, 1, 2)\<close>, which names a paragraph that line 0 no longer has: reading the paragraph
  under the cursor, as the next insertion or move does, raises \<^verbatim>\<open>IndexError\<close>.
\<close>

theorem create_newline_cursor_unmoved:
  "create_newline (field_of [\<lparr>paragraphs = [''hello'', ''world'']\<rparr>]
                            \<lparr>line_index = 0, paragraph_index = 1, char_index = 2\<rparr>)
     = Inr (field_of [\<lparr>paragraphs = [''hellowo'']\<rparr>, \<lparr>paragraphs = [''rld'']\<rparr>]
                     \<lparr>line_index = 0, paragraph_index = 1, char_index = 2\<rparr>)
   \<and> get_paragraph (field_of [\<lparr>paragraphs = [''hellowo'']\<rparr>, \<lparr>paragraphs = [''rld'']\<rparr>]
                               \<lparr>line_index = 0, paragraph_index = 1, char_index = 2\<rparr>) 0 1
     = Inl IndexError"
  by code_simp

section \<open>Moving the cursor\<close>

text \<open>
  Claim C5 says that a move with \<^verbatim>\<open>jump_words\<close> set takes the cursor to the next or
  previous space of its paragraph, and that some word-wise move changes the cursor.
  \<^verbatim>\<open>_move_cursor\<close> computes a new position only under \<^verbatim>\<open>if not jump_words:\<close>, so with
  \<^verbatim>\<open>jump_words\<close> set it writes the cursor's own three indices back: every word-wise move
  leaves every cursor as it was, in any document and any direction.
\<close>

theorem move_cursor_jump_words_unchanged:
  "move_cursor tf c direction True = Inr c"
  by (simp add: move_cursor_def)

lemma next_char_index_ab_cd:
  "next_char_index ''ab cd'' 0 1 True = Inr 2"
  by code_simp

lemma move_my_cursor_jump_words_ab_cd:
  "move_my_cursor (field_of [\<lparr>paragraphs = [''ab cd'']\<rparr>]
                            \<lparr>line_index = 0, paragraph_index = 0, char_index = 0\<rparr>) 1 True
     = Inr (field_of [\<lparr>paragraphs = [''ab cd'']\<rparr>]
                     \<lparr>line_index = 0, paragraph_index = 0, char_index = 0\<rparr>)"
  by code_simp

text \<open>
  Claim C6 says that a character-wise move backward from \<open>(line_index, 0, 0)\<close> lands at the
  end of the last paragraph of the previous line, however many paragraphs the two lines
  have. The code first sets the paragraph index to the last paragraph of the previous line
  and then, in a second \<^verbatim>\<open>if\<close> meant for the forward direction, resets it to 0 when it is
  not below the paragraph count of the line the cursor comes from. With a previous line of
  two paragraphs and a current line of one, the cursor lands at the end of the first
  paragraph, \<open>(0, 0, 1)\<close>, and not at \<open>(0, 1, 3)\<close>.
\<close>

theorem move_cursor_back_resets_paragraph:
  "move_cursor (field_of [\<lparr>paragraphs = [''a'', ''bbb'']\<rparr>, \<lparr>paragraphs = [''d'']\<rparr>]
                         \<lparr>line_index = 1, paragraph_index = 0, char_index = 0\<rparr>)
               \<lparr>line_index = 1, paragraph_index = 0, char_index = 0\<rparr> (- 1) False
     = Inr \<lparr>line_index = 0, paragraph_index = 0, char_index = 1\<rparr>"
  by code_simp

section \<open>Inserting a character\<close>

lemma auto_wrap_abcd_def:
  assumes "font ''abcd'' > mw"
  shows "auto_wrap font mw \<lparr>paragraphs = [''abcd'', ''def'']\<rparr>
           = \<lparr>paragraphs = [''abcd'', ''def'']\<rparr>"
  using assms by (cases "font ''def'' \<le> mw") (simp_all add: auto_wrap_def flush_line_def)

text \<open>
  Claim C7 says that in the line wrapped as \<open>abc\<close>, \<open>def\<close>, with only \<open>abc\<close> fitting,
  inserting \<open>d\<close> at paragraph 0, character 3 leaves the cursor at paragraph 0, character 3.
  As stated this fails: with one-pixel characters and room for three the cursor does not
  end at \<open>(0, 0, 3)\<close>.
\<close>

theorem insert_text_abc_def_not_at_3:
  "map_sum id cursor
     (insert_text char_width
        (field_of [\<lparr>paragraphs = [''abc'', ''def'']\<rparr>]
                  \<lparr>line_index = 0, paragraph_index = 0, char_index = 3\<rparr>) ''d'')
     \<noteq> Inr \<lparr>line_index = 0, paragraph_index = 0, char_index = 3\<rparr>"
  by code_simp

text \<open>
  Claim C7 as amended: whenever \<open>abcd\<close> is wider than the text area (and the row height is
  not zero), inserting \<open>d\<close> at paragraph 0, character 3 of the line \<open>abc\<close>, \<open>def\<close>
  succeeds, the line becomes \<open>abcd\<close>, \<open>def\<close>, and the cursor is at paragraph 0,
  character 4: right after the inserted \<open>d\<close>, in the first paragraph and not inside
  \<open>def\<close>. The cursor is carried through the wrap at offset 3 and advanced by the length
  of the inserted text afterwards.
\<close>

theorem insert_text_abc_def_cursor:
  assumes "font ''abcd'' > rect_width tf - 2 * padding tf" and "line_height tf \<noteq> 0"
    and "text_lines tf = [\<lparr>paragraphs = [''abc'', ''def'']\<rparr>]"
    and "cursor tf = \<lparr>line_index = 0, paragraph_index = 0, char_index = 3\<rparr>"
  shows "\<exists>tf'. insert_text font tf ''d'' = Inr tf'
           \<and> text_lines tf' = [\<lparr>paragraphs = [''abcd'', ''def'']\<rparr>]
           \<and> cursor tf' = \<lparr>line_index = 0, paragraph_index = 0, char_index = 4\<rparr>"
proof -
  let ?tf1 = "wrap_text font (tf\<lparr>text_lines := [\<lparr>paragraphs = [''abcd'', ''def'']\<rparr>]\<rparr>)"
  have w: "text_lines ?tf1 = [\<lparr>paragraphs = [''abcd'', ''def'']\<rparr>]"
      "cursor ?tf1 = \<lparr>line_index = 0, paragraph_index = 0, char_index = 3\<rparr>"
      "line_height ?tf1 = line_height tf"
    using assms(1,4)
    by (simp_all add: wrap_text_def auto_wrap_and_norm_cursor_def auto_wrap_abcd_def
        get_line_char_index_def get_paragraph_char_index_def slice_to_def slice_bound_def)
  let ?tf2 = "?tf1\<lparr>cursor := (cursor ?tf1)\<lparr>char_index :=
                                  char_index (cursor ?tf1) + int (length ''d'')\<rparr>\<rparr>"
  have e: "insert_text font tf ''d'' = update_scroll ?tf2"
    using assms(3,4)
    by (simp add: insert_text_def get_paragraph_def get_line_def py_index_def py_setitem_def index_pos_def
        slice_to_def slice_from_def slice_bound_def Let_def)
  have "line_height ?tf2 \<noteq> 0" using w(3) assms(2) by simp
  from update_scroll_keeps[OF this] obtain tf' where
    "update_scroll ?tf2 = Inr tf'" "cursor tf' = cursor ?tf2" "text_lines tf' = text_lines ?tf2"
    by blast
  with e w show ?thesis by simp
qed

theorem insert_text_abc_def_cursor_witness:
  "\<exists>tf'. insert_text char_width
            (field_of [\<lparr>paragraphs = [''abc'', ''def'']\<rparr>]
                      \<lparr>line_index = 0, paragraph_index = 0, char_index = 3\<rparr>) ''d'' = Inr tf'
         \<and> text_lines tf' = [\<lparr>paragraphs = [''abcd'', ''def'']\<rparr>]
         \<and> cursor tf' = \<lparr>line_index = 0, paragraph_index = 0, char_index = 4\<rparr>"
  using insert_text_abc_def_cursor[of "field_of [\<lparr>paragraphs = [''abc'', ''def'']\<rparr>]
              \<lparr>line_index = 0, paragraph_index = 0, char_index = 3\<rparr>" char_width]
  by (simp add: field_of_def char_width_def)

text \<open>
  Claim C10 says that after every \<^verbatim>\<open>_insert_text\<close> on a valid document and cursor the
  cursor's view row \<open>r\<close> satisfies \<open>scroll_offset \<le> r < scroll_offset + visible_lines\<close>.
  Typing a space into an empty field breaks it: the line of one space wraps to no paragraph
  at all, the cursor is carried to paragraph \<open>-1\<close>, its view row is \<open>-1\<close>, and the scroll
  offset is clamped to \<open>0\<close>, above the cursor's row.
\<close>

theorem insert_space_cursor_above_view:
  "insert_text char_width
     (field_of [\<lparr>paragraphs = ['''']\<rparr>]
               \<lparr>line_index = 0, paragraph_index = 0, char_index = 0\<rparr>) '' ''
     = Inr (field_of [\<lparr>paragraphs = []\<rparr>]
                     \<lparr>line_index = 0, paragraph_index = - 1, char_index = 1\<rparr>)
   \<and> get_view_line_pos
       (field_of [\<lparr>paragraphs = []\<rparr>] \<lparr>line_index = 0, paragraph_index = - 1, char_index = 1\<rparr>)
       \<lparr>line_index = 0, paragraph_index = - 1, char_index = 1\<rparr> = - 1
   \<and> scroll_offset
       (field_of [\<lparr>paragraphs = []\<rparr>] \<lparr>line_index = 0, paragraph_index = - 1, char_index = 1\<rparr>)
       = 0"
  by code_simp

section \<open>Flattened offsets\<close>

lemma sum_chars_nonneg: "0 \<le> sum_list (map (\<lambda>p. int (length p) + 1) ps)"
  by (induction ps) auto

lemma scan_paragraphs_hit:
  assumes "k < length ps" and "0 \<le> ci" and "ci \<le> int (length (ps ! k))"
  shows "scan_paragraphs (cum + sum_list (map (\<lambda>p. int (length p) + 1) (take k ps)) + ci) i cum ps
           = Some (i + int k, ci)"
  using assms
proof (induction ps arbitrary: k i cum)
  case Nil
  then show ?case by simp
next
  case (Cons p ps)
  show ?case
  proof (cases k)
    case 0
    with Cons.prems show ?thesis by simp
  next
    case (Suc j)
    let ?rest = "sum_list (map (\<lambda>p. int (length p) + 1) (take j ps))"
    have j: "j < length ps" "ci \<le> int (length (ps ! j))"
      using Cons.prems Suc by simp_all
    have nn: "0 \<le> ?rest" by (rule sum_chars_nonneg)
    have "scan_paragraphs (cum + (int (length p) + 1 + ?rest) + ci) i cum (p # ps)
            = scan_paragraphs ((cum + (int (length p) + 1)) + ?rest + ci) (i + 1)
                (cum + (int (length p) + 1)) ps"
      using nn Cons.prems(2) by (simp add: Let_def add.assoc)
    also have "\<dots> = Some (i + 1 + int j, ci)"
      using Cons.IH[OF j(1) Cons.prems(2) j(2)] by simp
    finally show ?thesis using Suc by simp
  qed
qed

text \<open>
  Claim C2: for a paragraph index in range and a character index between 0 and the length
  of that paragraph (the end of the paragraph included), the flattened offset of
  \<^verbatim>\<open>get_line_char_index\<close> is taken back to the same pair by
  \<^verbatim>\<open>get_paragraph_char_index\<close>.
\<close>

theorem offset_round_trip:
  assumes "0 \<le> pi" and "pi < int (length (paragraphs l))"
    and "0 \<le> ci" and "ci \<le> int (length (paragraphs l ! nat pi))"
  shows "get_paragraph_char_index l (get_line_char_index l pi ci) = (pi, ci)"
proof -
  have k: "nat pi < length (paragraphs l)" using assms(1,2) by simp
  have sl: "slice_to (paragraphs l) pi = take (nat pi) (paragraphs l)"
    using assms(1,2) by (simp add: slice_to_def slice_bound_def)
  have "scan_paragraphs (get_line_char_index l pi ci) 0 0 (paragraphs l)
          = Some (0 + int (nat pi), ci)"
    using scan_paragraphs_hit[OF k assms(3,4), of 0 0] by (simp add: get_line_char_index_def sl)
  then show ?thesis using assms(1) by (simp add: get_paragraph_char_index_def)
qed

theorem offset_round_trip_witness:
  "get_paragraph_char_index \<lparr>paragraphs = [''123'', ''456'']\<rparr>
     (get_line_char_index \<lparr>paragraphs = [''123'', ''456'']\<rparr> 1 3) = (1, 3)
   \<and> get_line_char_index \<lparr>paragraphs = [''123'', ''456'']\<rparr> 1 3 = 7"
  using offset_round_trip[of 1 "\<lparr>paragraphs = [''123'', ''456'']\<rparr>" 3]
  by (simp add: get_line_char_index_def slice_to_def slice_bound_def)

section \<open>Splitting and joining at spaces\<close>

lemma str_split_not_Nil [simp]: "str_split s \<noteq> []"
  by (induction s) auto

lemma str_split_no_space: "w \<in> set (str_split s) \<Longrightarrow> CHR '' '' \<notin> set w"
proof (induction s arbitrary: w)
  case Nil
  then show ?case by simp
next
  case (Cons c cs)
  show ?case
  proof (cases "c = CHR '' ''")
    case True
    with Cons show ?thesis by auto
  next
    case False
    have "hd (str_split cs) \<in> set (str_split cs)" by simp
    moreover have "set (tl (str_split cs)) \<subseteq> set (str_split cs)"
      by (cases "str_split cs") auto
    ultimately show ?thesis using Cons False by auto
  qed
qed

lemma str_split_append_space:
  "str_split (a @ CHR '' '' # b) = str_split a @ str_split b"
  by (induction a) auto

lemma str_split_join:
  "ps \<noteq> [] \<Longrightarrow> str_split (str_join ps) = concat (map str_split ps)"
  by (induction ps rule: str_join.induct) (simp_all add: str_split_append_space)

lemma str_join_Cons: "ys \<noteq> [] \<Longrightarrow> str_join (x # ys) = x @ CHR '' '' # str_join ys"
  by (cases ys) simp_all

lemma str_join_split: "str_join (str_split s) = s"
proof (induction s)
  case Nil
  then show ?case by simp
next
  case (Cons c cs)
  obtain y ys where r: "str_split cs = y # ys" by (cases "str_split cs") auto
  show ?case
  proof (cases "c = CHR '' ''")
    case True
    then show ?thesis using Cons by (simp add: str_join_Cons)
  next
    case False
    then show ?thesis using Cons r by (cases ys) simp_all
  qed
qed

lemma str_split_word: "CHR '' '' \<notin> set w \<Longrightarrow> str_split w = [w]"
  by (induction w) auto

lemma hd_str_split_not_Nil: "p \<noteq> [] \<Longrightarrow> hd p \<noteq> CHR '' '' \<Longrightarrow> hd (str_split p) \<noteq> []"
  by (cases p) auto

lemma str_join_prefix: "\<exists>t. str_join (x # xs) = x @ t"
  by (cases xs) simp_all

lemma str_join_merge: "str_join (x # y # ys) = str_join ((x @ CHR '' '' # y) # ys)"
  by (cases ys) simp_all

section \<open>No paragraph overflows unless it is a single word\<close>

lemma wrap_loop_fits_or_word:
  assumes "\<forall>w\<in>set ws. CHR '' '' \<notin> set w"
    and "font cur \<le> mw \<or> CHR '' '' \<notin> set cur"
    and "\<forall>p\<in>set out. font p \<le> mw \<or> CHR '' '' \<notin> set p"
  shows "\<forall>p\<in>set (flush_line (wrap_loop font mw ws cur out)). font p \<le> mw \<or> CHR '' '' \<notin> set p"
  using assms
proof (induction ws arbitrary: cur out)
  case Nil
  then show ?case by (auto simp: flush_line_def)
next
  case (Cons word ws)
  let ?test = "cur @ (if cur \<noteq> [] then '' '' else []) @ word"
  have ws: "\<forall>w\<in>set ws. CHR '' '' \<notin> set w" and word: "CHR '' '' \<notin> set word"
    using Cons.prems(1) by simp_all
  show ?case
  proof (cases "font ?test \<le> mw")
    case True
    then have eq: "wrap_loop font mw (word # ws) cur out = wrap_loop font mw ws ?test out"
      by (simp add: Let_def)
    have t: "font ?test \<le> mw \<or> CHR '' '' \<notin> set ?test" using True by blast
    show ?thesis unfolding eq by (rule Cons.IH[OF ws t Cons.prems(3)])
  next
    case False
    show ?thesis
    proof (cases "cur \<noteq> []")
      case True
      then have eq: "wrap_loop font mw (word # ws) cur out = wrap_loop font mw ws word (out @ [cur])"
        using False by (simp add: Let_def)
      have o: "\<forall>p\<in>set (out @ [cur]). font p \<le> mw \<or> CHR '' '' \<notin> set p"
        using Cons.prems(2,3) by auto
      have w: "font word \<le> mw \<or> CHR '' '' \<notin> set word" using word by blast
      show ?thesis unfolding eq by (rule Cons.IH[OF ws w o])
    next
      case cur: False
      then have eq: "wrap_loop font mw (word # ws) cur out = wrap_loop font mw ws [] (out @ [word])"
        using False by (simp add: Let_def)
      have o: "\<forall>p\<in>set (out @ [word]). font p \<le> mw \<or> CHR '' '' \<notin> set p"
        using Cons.prems(3) word by auto
      have e: "font [] \<le> mw \<or> CHR '' '' \<notin> set []" by simp
      show ?thesis unfolding eq by (rule Cons.IH[OF ws e o])
    qed
  qed
qed

lemma auto_wrap_abcd_e_f:
  "paragraphs (auto_wrap char_width 3 \<lparr>paragraphs = [''abcd e f'']\<rparr>) = [''abcd'', ''e f'']"
  by code_simp

text \<open>
  Claim C9: for every font, every \<open>max_width\<close> and every Line, each paragraph that
  \<^verbatim>\<open>auto_wrap\<close> produces is at most \<open>max_width\<close> wide or is a single word, that is,
  contains no space. The words are those of the Line's own text, split at single spaces.
\<close>

theorem auto_wrap_fits_or_single_word:
  assumes "p \<in> set (paragraphs (auto_wrap font max_width l))"
  shows "font p \<le> max_width \<or> CHR '' '' \<notin> set p"
proof -
  have "\<forall>p\<in>set (flush_line (wrap_loop font max_width (str_split (str_join (paragraphs l))) [] [])).
          font p \<le> max_width \<or> CHR '' '' \<notin> set p"
    by (rule wrap_loop_fits_or_word) (auto dest: str_split_no_space)
  then show ?thesis using assms by (simp add: auto_wrap_def)
qed

theorem auto_wrap_fits_or_single_word_witness:
  "''abcd'' \<in> set (paragraphs (auto_wrap char_width 3 \<lparr>paragraphs = [''abcd e f'']\<rparr>))
   \<and> \<not> char_width ''abcd'' \<le> 3 \<and> CHR '' '' \<notin> set ''abcd''"
  using auto_wrap_fits_or_single_word[of "''abcd''" char_width 3 "\<lparr>paragraphs = [''abcd e f'']\<rparr>"]
  by (simp add: auto_wrap_abcd_e_f char_width_def)

section \<open>Wrapping a wrapped line again\<close>

text \<open>
  Claim C8 says that wrapping is idempotent for every Line, every positive \<open>max_width\<close>
  and a fixed measurer. As stated this fails for a measurer that measures a text narrower
  than one of its prefixes: with \<open>ragged_font\<close> and \<open>max_width = 5\<close> the text of \<open>a\<close>,
  two spaces and \<open>b\<close> wraps to \<open>a\<close>, \<open>b\<close> (the empty word between the spaces does not fit
  behind \<open>a\<close>), and wrapping that again gives the single paragraph \<open>a b\<close>.
\<close>

theorem auto_wrap_not_idempotent_ragged:
  "auto_wrap ragged_font 5 (auto_wrap ragged_font 5 (Line_init ''a  b''))
     \<noteq> auto_wrap ragged_font 5 (Line_init ''a  b'')"
  by code_simp

lemma wrap_loop_append:
  "wrap_loop font mw (xs @ ys) c out =
     (case wrap_loop font mw xs c out of (c', out') \<Rightarrow> wrap_loop font mw ys c' out')"
  by (induction xs arbitrary: c out) (simp_all add: Let_def)

lemma wrap_loop_all_forced:
  assumes "\<And>s. font s > mw"
  shows "wrap_loop font mw ws [] out = ([], out @ ws)"
proof (induction ws arbitrary: out)
  case Nil
  then show ?case by simp
next
  case (Cons w ws)
  have "\<not> font w \<le> mw" using assms[of w] by simp
  then show ?case using Cons[of "out @ [w]"] by simp
qed

lemma wrap_loop_grow:
  assumes mono: "\<And>s t. font s \<le> font (s @ t)"
  shows "cur \<noteq> [] \<Longrightarrow> font (str_join (cur # ws)) \<le> mw \<Longrightarrow>
         wrap_loop font mw ws cur out = (str_join (cur # ws), out)"
proof (induction ws arbitrary: cur)
  case Nil
  then show ?case by simp
next
  case (Cons w ws)
  let ?test = "cur @ CHR '' '' # w"
  obtain t where t: "str_join (?test # ws) = ?test @ t" using str_join_prefix by blast
  have m: "str_join (cur # w # ws) = str_join (?test # ws)" by (rule str_join_merge)
  have "font ?test \<le> font (?test @ t)" by (rule mono)
  then have fits: "font ?test \<le> mw" using Cons.prems(2) m t by simp
  have "wrap_loop font mw (w # ws) cur out = wrap_loop font mw ws ?test out"
    using fits Cons.prems(1) by simp
  also have "\<dots> = (str_join (?test # ws), out)"
    using Cons.IH[of ?test] Cons.prems(2) m by simp
  finally show ?case using m by simp
qed


lemma replay_paragraph:
  assumes mono: "\<And>s t. font s \<le> font (s @ t)"
    and p: "settled font mw p"
    and c0: "c0 = [] \<or> font (c0 @ CHR '' '' # hd (str_split p)) > mw"
  shows "\<exists>c1 o1. wrap_loop font mw (str_split p) c0 out = (c1, o1) \<and> (c1 = [] \<or> c1 = p)
           \<and> flush_line (c1, o1) = flush_line (c0, out) @ [p]"
proof -
  obtain w1 ws where sp: "str_split p = w1 # ws" by (cases "str_split p") auto
  have w1: "w1 \<noteq> []" using hd_str_split_not_Nil[of p] p sp by (simp add: settled_def)
  have j: "str_join (w1 # ws) = p" using str_join_split[of p] sp by simp
  show ?thesis
  proof (cases "font p \<le> mw")
    case True
    obtain t where "p = w1 @ t" using str_join_prefix[of w1 ws] j by auto
    then have f1: "font w1 \<le> mw" using mono[of w1 t] True by simp
    have g: "\<And>o'. wrap_loop font mw ws w1 o' = (p, o')"
      using wrap_loop_grow[OF mono w1, of ws mw] True j by simp
    show ?thesis
    proof (cases "c0 = []")
      case True
      then have "wrap_loop font mw (str_split p) c0 out = (p, out)"
        using sp f1 g by simp
      then show ?thesis using True w1 p by (simp add: flush_line_def settled_def)
    next
      case False
      then have "\<not> font (c0 @ CHR '' '' # w1) \<le> mw" using c0 sp by simp
      then have "wrap_loop font mw (str_split p) c0 out = (p, out @ [c0])"
        using sp False g by simp
      then show ?thesis using False p by (simp add: flush_line_def settled_def)
    qed
  next
    case False
    then have "CHR '' '' \<notin> set p" using p by (simp add: settled_def)
    then have sp1: "str_split p = [p]" by (rule str_split_word)
    have pne: "p \<noteq> []" using p by (simp add: settled_def)
    show ?thesis
    proof (cases "c0 = []")
      case True
      then have "wrap_loop font mw (str_split p) c0 out = ([], out @ [p])"
        using sp1 False by simp
      then show ?thesis using True by (simp add: flush_line_def)
    next
      case c: False
      then have "\<not> font (c0 @ CHR '' '' # p) \<le> mw" using c0 sp1 by simp
      then have "wrap_loop font mw (str_split p) c0 out = (p, out @ [c0])"
        using sp1 c by simp
      then show ?thesis using c pne by (simp add: flush_line_def)
    qed
  qed
qed

lemma replay_all:
  assumes mono: "\<And>s t. font s \<le> font (s @ t)"
  shows "list_all (settled font mw) ps \<Longrightarrow> successively (blocks font mw) ps \<Longrightarrow>
         c0 = [] \<or> ps = [] \<or> font (c0 @ CHR '' '' # hd (str_split (hd ps))) > mw \<Longrightarrow>
         flush_line (wrap_loop font mw (concat (map str_split ps)) c0 out)
           = flush_line (c0, out) @ ps"
proof (induction ps arbitrary: c0 out)
  case Nil
  then show ?case by simp
next
  case (Cons p qs)
  have p: "settled font mw p" and qs: "list_all (settled font mw) qs"
    using Cons.prems(1) by simp_all
  have sq: "successively (blocks font mw) qs" and bq: "qs = [] \<or> blocks font mw p (hd qs)"
    using Cons.prems(2) by (auto simp: successively_Cons)
  have c0: "c0 = [] \<or> font (c0 @ CHR '' '' # hd (str_split p)) > mw"
    using Cons.prems(3) by simp
  from replay_paragraph[OF mono p c0, of out] obtain c1 o1 where
    r: "wrap_loop font mw (str_split p) c0 out = (c1, o1)" "c1 = [] \<or> c1 = p"
       "flush_line (c1, o1) = flush_line (c0, out) @ [p]"
    by blast
  have c1: "c1 = [] \<or> qs = [] \<or> font (c1 @ CHR '' '' # hd (str_split (hd qs))) > mw"
    using r(2) bq by (auto simp: blocks_def)
  have "wrap_loop font mw (concat (map str_split (p # qs))) c0 out
          = wrap_loop font mw (concat (map str_split qs)) c1 o1"
    using r(1) by (simp add: wrap_loop_append)
  then show ?case using Cons.IH[OF qs sq c1, of o1] r(3) by simp
qed

lemma wrapped_snoc:
  "wrapped font mw (xs @ [y]) \<longleftrightarrow>
     wrapped font mw xs \<and> settled font mw y \<and> (xs \<noteq> [] \<longrightarrow> blocks font mw (last xs) y)"
  by (auto simp: wrapped_def successively_append_iff)

lemma word_settled:
  "CHR '' '' \<notin> set w \<Longrightarrow> w \<noteq> [] \<Longrightarrow> settled font mw w"
  by (cases w) (auto simp: settled_def)

lemma blocks_after_space:
  assumes mono: "\<And>s t. font s \<le> font (s @ t)"
    and "font (p @ '' '') > mw"
  shows "blocks font mw p q"
proof -
  have "font (p @ '' '') \<le> font ((p @ '' '') @ hd (str_split q))" by (rule mono)
  then show ?thesis using assms(2) by (simp add: blocks_def)
qed


lemma first_pass_wrapped:
  assumes mono: "\<And>s t. font s \<le> font (s @ t)" and e: "font [] \<le> mw"
  shows "\<forall>w\<in>set ws. CHR '' '' \<notin> set w \<Longrightarrow>
         wrapped font mw (flush_line (cur, out)) \<Longrightarrow>
         cur = [] \<and> out \<noteq> [] \<longrightarrow> font (last out @ '' '') > mw \<Longrightarrow>
         wrapped font mw (flush_line (wrap_loop font mw ws cur out))"
proof (induction ws arbitrary: cur out)
  case Nil
  then show ?case by simp
next
  case (Cons word ws)
  have ws: "\<forall>w\<in>set ws. CHR '' '' \<notin> set w" and word: "CHR '' '' \<notin> set word"
    using Cons.prems(1) by simp_all
  have spw: "str_split word = [word]" using word by (rule str_split_word)
  show ?case
  proof (cases "cur = []")
    case True
    have wo: "wrapped font mw out" using Cons.prems(2) True by (simp add: flush_line_def)
    have bl: "out \<noteq> [] \<longrightarrow> blocks font mw (last out) word"
      using blocks_after_space[OF mono, of mw "last out" word] Cons.prems(3) True by simp
    show ?thesis
    proof (cases "font word \<le> mw")
      case fits: True
      have eq: "wrap_loop font mw (word # ws) cur out = wrap_loop font mw ws word out"
        using True fits by simp
      show ?thesis
      proof (cases "word = []")
        case w: True
        have eq': "wrap_loop font mw (word # ws) cur out = wrap_loop font mw ws [] out"
          using eq w by simp
        show ?thesis unfolding eq'
          using Cons.IH[OF ws, of "[]" out] Cons.prems(2,3) True by simp
      next
        case w: False
        have "wrapped font mw (flush_line (word, out))"
          using w wo bl word_settled[OF word w] by (simp add: flush_line_def wrapped_snoc)
        then show ?thesis unfolding eq using Cons.IH[OF ws, of word out] w by simp
      qed
    next
      case False
      then have w: "word \<noteq> []" using e by auto
      have eq: "wrap_loop font mw (word # ws) cur out = wrap_loop font mw ws [] (out @ [word])"
        using True False by simp
      have a: "wrapped font mw (flush_line ([], out @ [word]))"
        using wo bl word_settled[OF word w] by (simp add: flush_line_def wrapped_snoc)
      have "font word \<le> font (word @ '' '')" by (rule mono)
      then have b: "font (last (out @ [word]) @ '' '') > mw" using False by simp
      show ?thesis unfolding eq using Cons.IH[OF ws a] b by simp
    qed
  next
    case False
    have wc: "wrapped font mw (out @ [cur])" using Cons.prems(2) False by (simp add: flush_line_def)
    let ?test = "cur @ CHR '' '' # word"
    show ?thesis
    proof (cases "font ?test \<le> mw")
      case fits: True
      have eq: "wrap_loop font mw (word # ws) cur out = wrap_loop font mw ws ?test out"
        using False fits by simp
      have hs: "hd (str_split ?test) = hd (str_split cur)"
        by (simp add: str_split_append_space)
      have st: "settled font mw ?test"
        using wc False fits by (cases cur) (auto simp: wrapped_snoc settled_def)
      have "wrapped font mw (out @ [?test])"
        using wc st hs by (simp add: wrapped_snoc blocks_def)
      then have "wrapped font mw (flush_line (?test, out))" by (simp add: flush_line_def)
      then show ?thesis unfolding eq using Cons.IH[OF ws, of ?test out] by simp
    next
      case nofit: False
      have eq: "wrap_loop font mw (word # ws) cur out = wrap_loop font mw ws word (out @ [cur])"
        using False nofit by simp
      show ?thesis
      proof (cases "word = []")
        case w: True
        have a: "wrapped font mw (flush_line ([], out @ [cur]))"
          using wc by (simp add: flush_line_def)
        have b: "font (last (out @ [cur]) @ '' '') > mw" using nofit w by simp
        have eq': "wrap_loop font mw (word # ws) cur out = wrap_loop font mw ws [] (out @ [cur])"
          using eq w by simp
        show ?thesis unfolding eq' using Cons.IH[OF ws a] b by simp
      next
        case w: False
        have "blocks font mw cur word" using nofit spw by (simp add: blocks_def)
        then have "wrapped font mw ((out @ [cur]) @ [word])"
          using wc word_settled[OF word w] by (subst wrapped_snoc) simp
        then have a: "wrapped font mw (flush_line (word, out @ [cur]))"
          using w by (simp add: flush_line_def)
        show ?thesis unfolding eq using Cons.IH[OF ws a] w by simp
      qed
    qed
  qed
qed

lemma rewrap_paragraphs:
  assumes mono: "\<And>s t. font s \<le> font (s @ t)"
  shows "flush_line (wrap_loop font mw
           (str_split (str_join (flush_line (wrap_loop font mw (str_split (str_join ps)) [] [])))) [] [])
         = flush_line (wrap_loop font mw (str_split (str_join ps)) [] [])"
proof (cases "font [] \<le> mw")
  case True
  let ?P = "flush_line (wrap_loop font mw (str_split (str_join ps)) [] [])"
  have "wrapped font mw (flush_line ([], []))" by (simp add: flush_line_def wrapped_def)
  then have wp: "wrapped font mw ?P"
    using first_pass_wrapped[OF mono True, of "str_split (str_join ps)" "[]" "[]"]
    by (auto dest: str_split_no_space)
  show ?thesis
  proof (cases "?P = []")
    case e: True
    show ?thesis unfolding e using True by (simp add: flush_line_def)
  next
    case False
    have "flush_line (wrap_loop font mw (concat (map str_split ?P)) [] []) = flush_line ([], []) @ ?P"
      using wp by (intro replay_all[OF mono]) (simp_all add: wrapped_def)
    then show ?thesis using False by (simp add: str_split_join flush_line_def)
  qed
next
  case False
  have all: "\<And>s. font s > mw"
  proof -
    fix s
    have "font [] \<le> font ([] @ s)" by (rule mono)
    then show "font s > mw" using False by simp
  qed
  have "\<And>ws. flush_line (wrap_loop font mw ws [] []) = ws"
    by (simp add: wrap_loop_all_forced[OF all] flush_line_def)
  then show ?thesis by (simp add: str_join_split)
qed

text \<open>
  Claim C8 as amended: for every measurer that never measures a text narrower than one of
  its prefixes, every \<open>max_width\<close> and every Line, running \<^verbatim>\<open>auto_wrap\<close> on the output
  of \<^verbatim>\<open>auto_wrap\<close> at the same \<open>max_width\<close> reproduces exactly the same paragraphs.
\<close>

theorem auto_wrap_idempotent:
  assumes "\<And>s t. font s \<le> font (s @ t)"
  shows "auto_wrap font max_width (auto_wrap font max_width l) = auto_wrap font max_width l"
  using rewrap_paragraphs[OF assms, of max_width "paragraphs l"]
  by (simp add: auto_wrap_def)

lemma auto_wrap_ab_cd_e:
  "auto_wrap char_width 3 (Line_init ''ab  cd e'') = \<lparr>paragraphs = [''ab '', ''cd'', ''e'']\<rparr>"
  by code_simp

theorem auto_wrap_idempotent_witness:
  "auto_wrap char_width 3 \<lparr>paragraphs = [''ab '', ''cd'', ''e'']\<rparr>
     = \<lparr>paragraphs = [''ab '', ''cd'', ''e'']\<rparr>"
  using auto_wrap_idempotent[of char_width 3 "Line_init ''ab  cd e''"]
  by (simp add: auto_wrap_ab_cd_e char_width_def)

section \<open>Scrolling to the cursor\<close>

lemma get_view_line_pos_scroll [simp]:
  "get_view_line_pos (tf\<lparr>scroll_offset := s\<rparr>) c = get_view_line_pos tf c"
  by (simp add: get_view_line_pos_def)

lemma get_num_paragraphs_scroll [simp]:
  "get_num_paragraphs (tf\<lparr>scroll_offset := s\<rparr>) = get_num_paragraphs tf"
  by (simp add: get_num_paragraphs_def)

lemma update_scroll_shows_cursor:
  assumes vl: "visible_lines tf = Inr vl"
    and r0: "0 \<le> get_view_line_pos tf (cursor tf)"
    and r1: "get_view_line_pos tf (cursor tf) < get_num_paragraphs tf"
  shows "\<exists>tf'. update_scroll tf = Inr tf'
           \<and> scroll_offset tf' \<le> get_view_line_pos tf' (cursor tf')
           \<and> get_view_line_pos tf' (cursor tf') < scroll_offset tf' + vl"
proof -
  define r where "r = get_view_line_pos tf (cursor tf)"
  define s1 where "s1 = (if r \<ge> scroll_offset tf + vl then r - vl + 1 else scroll_offset tf)"
  define s2 where "s2 = (if r < s1 then r else s1)"
  define s3 where "s3 = max 0 (min s2 (max 0 (get_num_paragraphs tf - vl)))"
  have v1: "1 \<le> vl" using vl by (auto simp: visible_lines_def Let_def split: if_splits)
  have t1: "(if r \<ge> scroll_offset tf + vl then tf\<lparr>scroll_offset := r - vl + 1\<rparr> else tf)
              = tf\<lparr>scroll_offset := s1\<rparr>"
    by (simp add: s1_def)
  have "update_scroll tf = clamp_scroll (tf\<lparr>scroll_offset := s2\<rparr>)"
    unfolding update_scroll_def using vl by (simp add: Let_def r_def[symmetric] t1 s2_def)
  also have "\<dots> = Inr (tf\<lparr>scroll_offset := s3\<rparr>)"
    using clamp_scroll_Inr[of "tf\<lparr>scroll_offset := s2\<rparr>" vl] vl by (simp add: s3_def)
  finally have u: "update_scroll tf = Inr (tf\<lparr>scroll_offset := s3\<rparr>)" .
  have "s2 \<le> r \<and> r < s2 + vl" using v1 by (auto simp: s2_def s1_def)
  then have "s3 \<le> r \<and> r < s3 + vl" using r0 r1 by (auto simp: s3_def r_def)
  then show ?thesis using u by (simp add: r_def)
qed

end
